theory Spec2Isabelle
  imports Complex_Main "HOL-Library.Multiset" "HOL-Library.AList" "HOL-Library.Log_Nat"
begin

section \<open>Python values and exceptions\<close>

text \<open>
  The program is a Python script. Every exception it can raise in the functions modelled
  here is a value of \<open>error\<close>; a function that may raise returns \<open>error + 'a\<close> with
  \<open>Inl\<close> for the exception. Costs are Python floats (IEEE doubles) read from a
  spreadsheet; a float is modelled by the rational number it denotes, and every float operation
  of the program rounds its exact result to the nearest double (section "Python floats").
\<close>

datatype error =
    ValueError | KeyError | IndexError | ZeroDivisionError
  | AssertionError | UnboundLocalError | EOFError

type_synonym prefs = "string \<rightharpoonup> (string \<rightharpoonup> rat)"

text \<open>\<open>xs.index(x)\<close>: the first position of \<open>x\<close>, ValueError when absent.\<close>

fun list_index :: "'a list \<Rightarrow> 'a \<Rightarrow> error + nat" where
  "list_index [] x = Inl ValueError"
| "list_index (y # ys) x =
     (if y = x then Inr 0
      else (case list_index ys x of Inl e \<Rightarrow> Inl e | Inr i \<Rightarrow> Inr (Suc i)))"

text \<open>\<open>xs[i]\<close> for a non-negative index: IndexError out of range.\<close>

definition getitem :: "'a list \<Rightarrow> nat \<Rightarrow> error + 'a" where
  "getitem xs i = (if i < length xs then Inr (xs ! i) else Inl IndexError)"

text \<open>\<open>d[k]\<close> on a dict: KeyError when the key is missing.\<close>

definition dict_get :: "('k \<rightharpoonup> 'v) \<Rightarrow> 'k \<Rightarrow> error + 'v" where
  "dict_get d k = (case d k of None \<Rightarrow> Inl KeyError | Some v \<Rightarrow> Inr v)"

text \<open>A comprehension or for-loop whose body may raise: stops at the first exception.\<close>

fun mapE :: "('a \<Rightarrow> error + 'b) \<Rightarrow> 'a list \<Rightarrow> error + 'b list" where
  "mapE f [] = Inr []"
| "mapE f (x # xs) =
     (case f x of Inl e \<Rightarrow> Inl e
      | Inr y \<Rightarrow> (case mapE f xs of Inl e \<Rightarrow> Inl e | Inr ys \<Rightarrow> Inr (y # ys)))"

lemma mapE_cong [fundef_cong]:
  "xs = ys \<Longrightarrow> (\<And>x. x \<in> set ys \<Longrightarrow> f x = g x) \<Longrightarrow> mapE f xs = mapE g ys"
  by (induction ys arbitrary: xs) (auto split: sum.splits)

text \<open>\<open>np.argmax\<close>: the first position of the maximum, ValueError on an empty sequence.\<close>

fun argmax_aux :: "rat list \<Rightarrow> nat \<Rightarrow> rat \<Rightarrow> nat \<Rightarrow> nat" where
  "argmax_aux [] i best bi = bi"
| "argmax_aux (x # xs) i best bi =
     (if best < x then argmax_aux xs (Suc i) x i else argmax_aux xs (Suc i) best bi)"

definition argmax :: "rat list \<Rightarrow> error + nat" where
  "argmax xs = (case xs of [] \<Rightarrow> Inl ValueError | x # ys \<Rightarrow> Inr (argmax_aux ys 1 x 0))"

section \<open>Python floats\<close>

text \<open>
  A finite double is \<open>m * 2^e\<close> with \<open>|m| < 2^53\<close> and \<open>e \<ge> -1074\<close>. An operation on
  floats returns the double nearest to the exact result, the one with the even mantissa when
  two are equally near. \<open>expo x\<close> is the binary exponent of \<open>x\<close>
  (\<open>2^(expo x) \<le> |x| < 2^(expo x + 1)\<close>), found from the bit lengths of numerator and
  denominator; the doubles around \<open>x\<close> are the multiples of \<open>2^(expo x - 52)\<close>, and of
  \<open>2^(-1074)\<close> in the subnormal range. Results of \<open>2^1024\<close> and more, where a double
  becomes \<open>inf\<close>, are not modelled: the costs \<open>get_preferences\<close> returns lie between 1
  and the number of rows of the sheet.
\<close>

definition expo :: "rat \<Rightarrow> int" where
  "expo x =
     (let (a, b) = quotient_of \<bar>x\<bar>; e = bitlen a - bitlen b
      in if 2 powi e \<le> \<bar>x\<bar> then e else e - 1)"

definition round_half_even :: "rat \<Rightarrow> int" where
  "round_half_even r =
     (let n = \<lfloor>r\<rfloor>; d = r - of_int n
      in if d < 1 / 2 then n else if 1 / 2 < d then n + 1
         else if even n then n else n + 1)"

text \<open>\<open>fl x\<close>: the double nearest to \<open>x\<close>.\<close>

definition fl :: "rat \<Rightarrow> rat" where
  "fl x = (if x = 0 then 0
           else (let q = 2 powi (max (expo x) (- 1022) - 52)
                 in of_int (round_half_even (x / q)) * q))"

section \<open>seek_loop\<close>

text \<open>The literal \<open>1e-10\<close>: the double nearest to \<open>10^-10\<close>.\<close>

definition epsilon :: rat where
  "epsilon = fl (1 / 10 ^ 10)"

text \<open>\<open>d[chores[names.index(n)]]\<close> where \<open>d = prefs[curr_person]\<close>.\<close>

definition held_cost :: "(string \<rightharpoonup> rat) \<Rightarrow> string list \<Rightarrow> string list \<Rightarrow> string \<Rightarrow> error + rat" where
  "held_cost d names chores n =
     (case list_index names n of Inl e \<Rightarrow> Inl e
      | Inr i \<Rightarrow> (case getitem chores i of Inl e \<Rightarrow> Inl e | Inr c \<Rightarrow> dict_get d c))"

text \<open>
  The comprehension \<open>desired_switches\<close> over \<open>enumerate(chores)\<close>: \<open>excl\<close> is
  \<open>[curr_person] + people_already_included[1:]\<close> and \<open>bound\<close> is the float
  \<open>current_misery - 1e-10*(improvement_so_far==0)\<close>, where the product is exactly
  \<open>1e-10\<close> or \<open>0.0\<close>.
\<close>

fun desired_switches ::
  "string list \<Rightarrow> (string \<rightharpoonup> rat) \<Rightarrow> string list \<Rightarrow> rat \<Rightarrow> (nat \<times> string) list \<Rightarrow> error + string list"
where
  "desired_switches names d excl bound [] = Inr []"
| "desired_switches names d excl bound ((i, c) # ics) =
     (case getitem names i of Inl e \<Rightarrow> Inl e
      | Inr n \<Rightarrow>
          if n \<notin> set excl then
            (case dict_get d c of Inl e \<Rightarrow> Inl e
             | Inr p \<Rightarrow>
                 (case desired_switches names d excl bound ics of Inl e \<Rightarrow> Inl e
                  | Inr ds \<Rightarrow> Inr (if p \<le> bound then n # ds else ds)))
          else desired_switches names d excl bound ics)"

lemma desired_switches_set:
  "desired_switches names d excl bound ics = Inr ds \<Longrightarrow> set ds \<subseteq> set names - set excl"
proof (induction ics arbitrary: ds)
  case Nil
  then show ?case by simp
next
  case (Cons ic ics)
  obtain i c where ic: "ic = (i, c)" by (cases ic)
  show ?case
  proof (cases "i < length names")
    case False
    with Cons.prems ic show ?thesis by (simp add: getitem_def)
  next
    case True
    note i = this
    show ?thesis
    proof (cases "names ! i \<in> set excl")
      case True
      with Cons.prems ic i have "desired_switches names d excl bound ics = Inr ds"
        by (simp add: getitem_def)
      then show ?thesis by (rule Cons.IH)
    next
      case False
      with Cons.prems ic i obtain p ds' where
        r: "desired_switches names d excl bound ics = Inr ds'"
        and ds: "ds = (if p \<le> bound then names ! i # ds' else ds')"
        by (auto simp: getitem_def split: sum.splits)
      from Cons.IH[OF r] False i ds show ?thesis by (auto split: if_splits)
    qed
  qed
qed

text \<open>
  The search itself. The result is the pair \<open>(loop, improvement)\<close>; Python's \<open>False\<close> in the
  first component is \<open>None\<close>. Each desired switch contributes the list of possibilities it
  adds (none or one).
\<close>

function seek_loop ::
  "string list \<Rightarrow> string list \<Rightarrow> prefs \<Rightarrow> string \<Rightarrow> string list \<Rightarrow> rat \<Rightarrow> bool
     \<Rightarrow> error + (string list option \<times> rat)"
where
  "seek_loop names chores prefs curr_person people_already_included improvement_so_far largeloop =
     (case list_index names curr_person of Inl e \<Rightarrow> Inl e | Inr i_name \<Rightarrow>
      case dict_get prefs curr_person of Inl e \<Rightarrow> Inl e | Inr d \<Rightarrow>
      case getitem chores i_name of Inl e \<Rightarrow> Inl e | Inr c0 \<Rightarrow>
      case dict_get d c0 of Inl e \<Rightarrow> Inl e | Inr current_misery \<Rightarrow>
      case desired_switches names d (curr_person # tl people_already_included)
             (fl (current_misery - (if improvement_so_far = 0 then epsilon else 0)))
             (enumerate 0 chores) of Inl e \<Rightarrow> Inl e | Inr ds \<Rightarrow>
      case mapE (\<lambda>n.
             if people_already_included \<noteq> [] \<and> n = hd people_already_included then
               (case held_cost d names chores n of Inl e \<Rightarrow> Inl e
                | Inr p \<Rightarrow> Inr [(people_already_included @ [curr_person],
                                fl (fl (improvement_so_far + current_misery) - p))])
             else if largeloop \<or> people_already_included = [] then
               (case held_cost d names chores n of Inl e \<Rightarrow> Inl e
                | Inr p \<Rightarrow>
                   (case seek_loop names chores prefs n (people_already_included @ [curr_person])
                           (fl (fl (improvement_so_far + current_misery) - p)) largeloop of
                      Inl e \<Rightarrow> Inl e
                    | Inr found \<Rightarrow>
                        Inr (case fst found of None \<Rightarrow> []
                             | Some l \<Rightarrow> if l \<noteq> [] then [(l, snd found)] else [])))
             else Inr []) ds of Inl e \<Rightarrow> Inl e | Inr ps \<Rightarrow>
      (let possibilities = concat ps in
       if possibilities \<noteq> [] then
         (case argmax (map snd possibilities) of Inl e \<Rightarrow> Inl e
          | Inr k \<Rightarrow> Inr (Some (fst (possibilities ! k)), snd (possibilities ! k)))
       else Inr (None, 0)))"
  by pat_completeness auto
termination
proof (relation "measure (\<lambda>(names, chores, prefs, curr, pai, imp, ll).
                   card (set names - set pai - {curr}))", goal_cases)
  case 1
  show ?case by simp
next
  case (2 names chores prefs curr pai imp ll i_name d c0 m ds n p)
  from desired_switches_set[OF 2(5)] 2(6)
  have n: "n \<in> set names" "n \<noteq> curr" "n \<notin> set (tl pai)" by auto
  have "n \<notin> set pai"
  proof (cases pai)
    case Nil then show ?thesis by simp
  next
    case (Cons a as)
    with 2(7) n(3) show ?thesis by auto
  qed
  with n have mem: "n \<in> set names - set pai - {curr}" by simp
  have eq: "set names - set (pai @ [curr]) - {n} = (set names - set pai - {curr}) - {n}"
    by auto
  have "card ((set names - set pai - {curr}) - {n}) < card (set names - set pai - {curr})"
    using mem by (intro card_Diff1_less) auto
  with eq show ?case by simp
qed

declare seek_loop.simps [simp del]

section \<open>misery and improve\<close>

text \<open>\<open>prefs[u][chores[names.index(v)]]\<close>: what \<open>u\<close> pays for the chore \<open>v\<close> holds.\<close>

definition chore_cost :: "string list \<Rightarrow> string list \<Rightarrow> prefs \<Rightarrow> string \<Rightarrow> string \<Rightarrow> error + rat" where
  "chore_cost names chores prefs u v =
     (case dict_get prefs u of Inl e \<Rightarrow> Inl e | Inr d \<Rightarrow> held_cost d names chores v)"

text \<open>
  \<open>sum(prefs[n][c] for n,c in zip(names,chores))\<close>, the numerator of \<open>misery\<close>: the
  values are added to 0 from left to right, each addition a float addition (Python 3.12 and
  later compensate the rounding error of the sum). The misery is only recorded in
  \<open>historical_misery\<close> and printed: no branch of the program tests it.
\<close>

definition total_misery :: "string list \<Rightarrow> string list \<Rightarrow> prefs \<Rightarrow> error + rat" where
  "total_misery names chores prefs =
     (case mapE (\<lambda>(n, c). case dict_get prefs n of Inl e \<Rightarrow> Inl e | Inr d \<Rightarrow> dict_get d c)
             (zip names chores) of
        Inl e \<Rightarrow> Inl e
      | Inr vs \<Rightarrow> Inr (foldl (\<lambda>acc v. fl (acc + v)) 0 vs))"

definition misery :: "string list \<Rightarrow> string list \<Rightarrow> prefs \<Rightarrow> error + rat" where
  "misery names chores prefs =
     (case total_misery names chores prefs of Inl e \<Rightarrow> Inl e
      | Inr t \<Rightarrow> if length chores = 0 then Inl ZeroDivisionError
                 else Inr (fl (t / of_nat (length chores))))"

text \<open>\<open>xs[i] = v\<close> for a non-negative index.\<close>

definition setitem :: "'a list \<Rightarrow> nat \<Rightarrow> 'a \<Rightarrow> error + 'a list" where
  "setitem xs i v = (if i < length xs then Inr (xs[i := v]) else Inl IndexError)"

text \<open>
  \<open>asking_order\<close>: the askers are \<open>restricted_askers\<close> unless that is \<open>None\<close> or empty
  (both falsy), then \<open>names\<close>; \<open>sorted\<close> computes every key first and sorts stably.
\<close>

definition asking_order ::
  "string list \<Rightarrow> string list \<Rightarrow> prefs \<Rightarrow> string list option \<Rightarrow> error + string list" where
  "asking_order names chores prefs restricted_askers =
     (let askers = (case restricted_askers of None \<Rightarrow> names
                    | Some r \<Rightarrow> if r \<noteq> [] then r else names) in
      case mapE (\<lambda>n. case chore_cost names chores prefs n n of Inl e \<Rightarrow> Inl e
                      | Inr x \<Rightarrow> Inr (- x, n)) askers of
        Inl e \<Rightarrow> Inl e
      | Inr kns \<Rightarrow> Inr (map snd (sort_key fst kns)))"

text \<open>The inner for-loop over \<open>zip(loop[:-1],loop[1:])\<close>, on the list \<open>chores\<close> in place.\<close>

fun pass_chores :: "string list \<Rightarrow> (string \<times> string) list \<Rightarrow> string list \<Rightarrow> error + string list" where
  "pass_chores names [] chores = Inr chores"
| "pass_chores names ((nget, ngive) # ps) chores =
     (case list_index names ngive of Inl e \<Rightarrow> Inl e | Inr j \<Rightarrow>
      case getitem chores j of Inl e \<Rightarrow> Inl e | Inr c \<Rightarrow>
      case list_index names nget of Inl e \<Rightarrow> Inl e | Inr i \<Rightarrow>
      case setitem chores i c of Inl e \<Rightarrow> Inl e | Inr chores' \<Rightarrow>
      pass_chores names ps chores')"

text \<open>Lines 538-541: the update of the chores list by a found loop.\<close>

definition execute_trade :: "string list \<Rightarrow> string list \<Rightarrow> string \<Rightarrow> string list \<Rightarrow> error + string list" where
  "execute_trade names chores n loop =
     (case list_index names n of Inl e \<Rightarrow> Inl e | Inr i \<Rightarrow>
      case getitem chores i of Inl e \<Rightarrow> Inl e | Inr nchore \<Rightarrow>
      case pass_chores names (zip (butlast loop) (tl loop)) chores of Inl e \<Rightarrow> Inl e
      | Inr chores' \<Rightarrow>
          if loop = [] then Inl IndexError
          else (case list_index names (last loop) of Inl e \<Rightarrow> Inl e
                | Inr k \<Rightarrow> setitem chores' k nchore))"

text \<open>
  One pass of the for-loop over \<open>asking_order\<close>. The state is the working \<open>chores\<close>, the
  list \<open>historical_misery\<close> and the flag \<open>made_trade\<close>.
\<close>

fun ask_all ::
  "string list \<Rightarrow> prefs \<Rightarrow> bool \<Rightarrow> string list \<Rightarrow> string list \<times> rat list \<times> bool
     \<Rightarrow> error + (string list \<times> rat list \<times> bool)"
where
  "ask_all names prefs largeloop [] st = Inr st"
| "ask_all names prefs largeloop (n # ns) (chores, historical_misery, made_trade) =
     (case seek_loop names chores prefs n [] 0 largeloop of Inl e \<Rightarrow> Inl e
      | Inr found \<Rightarrow>
         (case fst found of
            None \<Rightarrow> ask_all names prefs largeloop ns (chores, historical_misery, made_trade)
          | Some loop \<Rightarrow>
              if loop = [] then
                ask_all names prefs largeloop ns (chores, historical_misery, made_trade)
              else
                (case execute_trade names chores n loop of Inl e \<Rightarrow> Inl e
                 | Inr chores' \<Rightarrow>
                    (case misery names chores' prefs of Inl e \<Rightarrow> Inl e
                     | Inr m \<Rightarrow>
                        ask_all names prefs largeloop ns
                          (chores', historical_misery @ [m], True)))))"

text \<open>
  The \<open>while True\<close> loop. It may in principle run forever, so it is a partial function:
  \<open>None\<close> is "does not return", \<open>Some (Inl e)\<close> an exception, \<open>Some (Inr st)\<close> the
  state at \<open>break\<close>.
\<close>

partial_function (option) improve_while ::
  "string list \<Rightarrow> prefs \<Rightarrow> bool \<Rightarrow> string list \<Rightarrow> string list \<Rightarrow> rat list
     \<Rightarrow> (error + (string list \<times> rat list)) option"
where
  "improve_while names prefs largeloop order chores historical_misery =
     (case ask_all names prefs largeloop order (chores, historical_misery, False) of
        Inl e \<Rightarrow> Some (Inl e)
      | Inr st \<Rightarrow>
          if \<not> snd (snd st) then Some (Inr (fst st, fst (snd st)))
          else improve_while names prefs largeloop order (fst st) (fst (snd st)))"

declare improve_while.simps [code]

text \<open>\<open>improve\<close> with its local \<open>historical_misery\<close> kept beside the returned list.\<close>

definition improve_run ::
  "string list \<Rightarrow> string list \<Rightarrow> prefs \<Rightarrow> string list option \<Rightarrow> bool
     \<Rightarrow> (error + (string list \<times> rat list)) option" where
  "improve_run names chores prefs restricted_askers largeloop =
     (case asking_order names chores prefs restricted_askers of Inl e \<Rightarrow> Some (Inl e)
      | Inr order \<Rightarrow>
         (case misery names chores prefs of Inl e \<Rightarrow> Some (Inl e)
          | Inr m \<Rightarrow> improve_while names prefs largeloop order chores [m]))"

definition improve ::
  "string list \<Rightarrow> string list \<Rightarrow> prefs \<Rightarrow> string list option \<Rightarrow> bool
     \<Rightarrow> (error + string list) option" where
  "improve names chores prefs restricted_askers largeloop =
     map_option (map_sum id fst) (improve_run names chores prefs restricted_askers largeloop)"

section \<open>get_current_situation\<close>

text \<open>
  The function prompts on standard input. The answers are a parameter: the list of the
  lines still to be read, each already split at commas and stripped; reading past the last
  one is EOFError. A local variable is \<open>None\<close> until it is assigned, and reading it
  then is UnboundLocalError.
\<close>

definition read_local :: "'a option \<Rightarrow> error + 'a" where
  "read_local v = (case v of None \<Rightarrow> Inl UnboundLocalError | Some x \<Rightarrow> Inr x)"

fun ask_out_of_town :: "string list \<Rightarrow> string list list \<Rightarrow> error + (string list \<times> string list list)" where
  "ask_out_of_town all_names [] = Inl EOFError"
| "ask_out_of_town all_names (oot # answers) =
     (if \<forall>name \<in> set oot. name \<in> set all_names then Inr (oot, answers)
      else ask_out_of_town all_names answers)"

fun ask_skip :: "string list \<Rightarrow> nat \<Rightarrow> string list list \<Rightarrow> error + string list" where
  "ask_skip all_chores k [] = Inl EOFError"
| "ask_skip all_chores k (sk # answers) =
     (if (\<forall>chore \<in> set sk. chore \<in> set all_chores) \<and> length sk = k then Inr sk
      else ask_skip all_chores k answers)"

definition get_current_situation ::
  "string list \<Rightarrow> string list \<Rightarrow> string list list \<Rightarrow> error + (string list \<times> string list)" where
  "get_current_situation all_names all_chores answers =
     (case ask_out_of_town all_names answers of Inl e \<Rightarrow> Inl e
      | Inr (oot, answers') \<Rightarrow>
         (let names = filter (\<lambda>name. name \<notin> set oot) all_names;
              lnames = length names;
              lchores = length all_chores;
              chores = (None :: string list option) in
          if lnames = lchores then
            (case read_local chores of Inl e \<Rightarrow> Inl e
             | Inr printed \<Rightarrow> Inr (names, all_chores))
          else if lnames > lchores then
            Inr (names, all_chores @ replicate (lnames - lchores) ''Wild'')
          else
            (case ask_skip all_chores (lchores - lnames) answers' of Inl e \<Rightarrow> Inl e
             | Inr sk \<Rightarrow> Inr (names, filter (\<lambda>chore. chore \<notin> set sk) all_chores))))"

section \<open>get_from_current_cycle\<close>

text \<open>
  A date is its ordinal. A history row is a date and a dict from person to chore; the dict is
  an association list in insertion order, as Python keeps it.
\<close>

type_synonym date = int
type_synonym history = "(date \<times> (string \<times> string) list) list"

definition digit_char :: "nat \<Rightarrow> char" where
  "digit_char n = ''0123456789'' ! (n mod 10)"

function str_nat :: "nat \<Rightarrow> string" where
  "str_nat n = (if n < 10 then [digit_char n] else str_nat (n div 10) @ [digit_char n])"
  by pat_completeness auto
termination
  by (relation "measure id") auto

declare str_nat.simps [simp del]

text \<open>\<open>sub in s\<close> on strings.\<close>

fun has_substring :: "string \<Rightarrow> string \<Rightarrow> bool" where
  "has_substring sub [] = (sub = [])"
| "has_substring sub (c # cs) = (take (length sub) (c # cs) = sub \<or> has_substring sub cs)"

text \<open>
  Lines 285-290: the last row of the history with the cycle's Monday, unzipped. \<open>zip(*[])\<close>
  is empty, so unpacking an empty dict is ValueError. The argument is the reversed history.
\<close>

fun find_cycle_start :: "history \<Rightarrow> date \<Rightarrow> error + (string list \<times> string list)" where
  "find_cycle_start [] moncy = Inl AssertionError"
| "find_cycle_start (h # hs) moncy =
     (if fst h = moncy then
        (if snd h = [] then Inl ValueError else Inr (map fst (snd h), map snd (snd h)))
      else find_cycle_start hs moncy)"

text \<open>Lines 300-304 and 308-312: number the wildcards.\<close>

fun tag_wild :: "nat \<Rightarrow> string list \<Rightarrow> string list" where
  "tag_wild nwild [] = []"
| "tag_wild nwild (chore # cs) =
     (if chore = ''Wild'' then (''Wild'' @ str_nat (Suc nwild)) # tag_wild (Suc nwild) cs
      else chore # tag_wild nwild cs)"

text \<open>Lines 322-346: the loop over this week's names; the result is \<open>new_chores\<close>.\<close>

fun assign_from_cycle ::
  "string list \<Rightarrow> string list \<Rightarrow> string list \<Rightarrow> string list \<Rightarrow> string list \<Rightarrow> error + string list"
where
  "assign_from_cycle cc_names cc_chores chores [] extra_chores = Inr []"
| "assign_from_cycle cc_names cc_chores chores (name # names) extra_chores =
     (if name \<in> set cc_names then
        (case list_index cc_names name of Inl e \<Rightarrow> Inl e | Inr k \<Rightarrow>
         case getitem cc_chores k of Inl e \<Rightarrow> Inl e | Inr cc_chore \<Rightarrow>
         if cc_chore \<in> set chores then
           (case assign_from_cycle cc_names cc_chores chores names extra_chores of
              Inl e \<Rightarrow> Inl e | Inr new_chores \<Rightarrow> Inr (cc_chore # new_chores))
         else
           (case extra_chores of [] \<Rightarrow> Inl IndexError
            | x # xs \<Rightarrow>
               (case assign_from_cycle cc_names cc_chores chores names xs of
                  Inl e \<Rightarrow> Inl e | Inr new_chores \<Rightarrow> Inr (x # new_chores))))
      else
        (case extra_chores of [] \<Rightarrow> Inl IndexError
         | x # xs \<Rightarrow>
            (case assign_from_cycle cc_names cc_chores chores names xs of
               Inl e \<Rightarrow> Inl e | Inr new_chores \<Rightarrow> Inr (x # new_chores))))"

definition get_from_current_cycle ::
  "history \<Rightarrow> date \<Rightarrow> string list \<Rightarrow> string list \<Rightarrow> error + string list" where
  "get_from_current_cycle hist moncy names chores =
     (case find_cycle_start (rev hist) moncy of Inl e \<Rightarrow> Inl e
      | Inr (cc_names0, cc_chores0) \<Rightarrow>
         (let kept = filter (\<lambda>(name, chore). name \<in> set names) (zip cc_names0 cc_chores0) in
          if kept = [] then Inl ValueError
          else
            (let cc_names = map fst kept;
                 cc_chores = tag_wild 0 (map snd kept);
                 chores' = tag_wild 0 chores;
                 extra_chores = filter (\<lambda>chore. chore \<notin> set cc_chores) chores' in
             case assign_from_cycle cc_names cc_chores chores' names extra_chores of
               Inl e \<Rightarrow> Inl e
             | Inr new_chores \<Rightarrow>
                 Inr (map (\<lambda>chore. if has_substring ''Wild'' chore then ''Wild'' else chore)
                        new_chores))))"

section \<open>The baseline step of main\<close>

text \<open>\<open>deque.rotate(n)\<close> for \<open>n \<ge> 0\<close>: \<open>n\<close> times, the last element moves to the front.\<close>

definition rotate_right1 :: "'a list \<Rightarrow> 'a list" where
  "rotate_right1 xs = (if xs = [] then [] else last xs # butlast xs)"

definition deque_rotate :: "nat \<Rightarrow> 'a list \<Rightarrow> 'a list" where
  "deque_rotate n xs = (rotate_right1 ^^ n) xs"

text \<open>Lines 672-675 and 690-693: the new-cycle scheme; \<open>%\<close> by zero raises.\<close>

definition new_cycle :: "int \<Rightarrow> string list \<Rightarrow> error + (string list \<times> bool)" where
  "new_cycle fourweekno chores =
     (if length chores = 0 then Inl ZeroDivisionError
      else Inr (deque_rotate (nat (fourweekno mod int (length chores))) chores, True))"

text \<open>
  Lines 670-693 of \<open>main\<close>: the result is \<open>(chores, do_full_improvement)\<close>. The bare
  \<open>except:\<close> catches every exception of \<open>get_from_current_cycle\<close>.
\<close>

definition main_baseline ::
  "int \<Rightarrow> int \<Rightarrow> history \<Rightarrow> date \<Rightarrow> string list \<Rightarrow> string list \<Rightarrow> error + (string list \<times> bool)" where
  "main_baseline weekno fourweekno hist moncy names chores =
     (if weekno mod 4 = 0 then new_cycle fourweekno chores
      else (case get_from_current_cycle hist moncy names chores of
              Inr baseline \<Rightarrow> Inr (baseline, False)
            | Inl e \<Rightarrow> new_cycle fourweekno chores))"

section \<open>add_to_history\<close>

text \<open>\<open>dict(pairs)\<close>: a later value for a key replaces the earlier one in its place.\<close>

definition dict_of :: "('k \<times> 'v) list \<Rightarrow> ('k \<times> 'v) list" where
  "dict_of kvs = foldl (\<lambda>d (k, v). AList.update k v d) [] kvs"

text \<open>The update of the list \<open>hist\<close> (lines 634-641); the file is written from it.\<close>

definition add_to_history ::
  "history \<Rightarrow> date \<Rightarrow> string list \<Rightarrow> string list \<Rightarrow> history" where
  "add_to_history hist mon names chores =
     (if length hist \<noteq> 0 \<and> fst (last hist) = mon then
        hist[length hist - 1 := (mon, dict_of (zip names chores))]
      else hist @ [(mon, dict_of (zip names chores))])"

section \<open>The three-person instance\<close>

text \<open>Three people, three chores, and the preferences of the 3-cycle scenario.\<close>

definition ex_names :: "string list" where
  "ex_names = [''A'', ''B'', ''C'']"

definition ex_chores :: "string list" where
  "ex_chores = [''IA'', ''IB'', ''IC'']"

definition ex_prefs :: prefs where
  "ex_prefs = [''A'' \<mapsto> [''IA'' \<mapsto> 3, ''IB'' \<mapsto> 1, ''IC'' \<mapsto> 2],
               ''B'' \<mapsto> [''IA'' \<mapsto> 2, ''IB'' \<mapsto> 3, ''IC'' \<mapsto> 1],
               ''C'' \<mapsto> [''IA'' \<mapsto> 1, ''IB'' \<mapsto> 2, ''IC'' \<mapsto> 3]]"

section \<open>An instance with a repeated name, and one with large costs\<close>









section \<open>Notions for the properties of the search\<close>

text \<open>A call of \<open>seek_loop\<close> from \<open>n\<close> that returns no loop (\<open>not loop\<close> holds).\<close>

definition no_loop_found :: "string list \<Rightarrow> string list \<Rightarrow> prefs \<Rightarrow> bool \<Rightarrow> string \<Rightarrow> bool" where
  "no_loop_found names chores prefs largeloop n =
     (case seek_loop names chores prefs n [] 0 largeloop of Inl e \<Rightarrow> False
      | Inr found \<Rightarrow> (case fst found of None \<Rightarrow> True | Some l \<Rightarrow> l = []))"

text \<open>The people who may start a loop (line 513).\<close>

definition askers_of :: "string list \<Rightarrow> string list option \<Rightarrow> string list" where
  "askers_of names ra = (case ra of None \<Rightarrow> names | Some r \<Rightarrow> if r \<noteq> [] then r else names)"

section \<open>Rounding to a double\<close>

text \<open>\<open>expo\<close> is the binary exponent.\<close>

lemma expo_bounds:
  assumes "x \<noteq> 0"
  shows "2 powi (expo x) \<le> \<bar>x\<bar> \<and> \<bar>x\<bar> < 2 powi (expo x + 1)"
proof -
  obtain a b where q: "quotient_of \<bar>x\<bar> = (a, b)" by (cases "quotient_of \<bar>x\<bar>")
  then have b: "0 < b" and x: "\<bar>x\<bar> = of_int a / of_int b"
    using quotient_of_denom_pos quotient_of_div by auto
  have "0 < \<bar>x\<bar>" using assms by simp
  with x have "0 < (of_int a :: rat) / of_int b" by simp
  with b have a: "0 < a" by (simp add: zero_less_divide_iff)
  define i where "i = nat (bitlen a)"
  define j where "j = nat (bitlen b)"
  have bi: "bitlen a = int i" "bitlen b = int j"
    using bitlen_nonneg by (simp_all add: i_def j_def)
  from bitlen_bounds[OF a] have ab: "2 ^ nat (int i - 1) \<le> a" "a < 2 ^ i"
    by (simp_all add: bi)
  from bitlen_bounds[OF b] have bb: "2 ^ nat (int j - 1) \<le> b" "b < 2 ^ j"
    by (simp_all add: bi)
  have i1: "1 \<le> i"
  proof (rule ccontr)
    assume "\<not> 1 \<le> i"
    then have "i = 0" by simp
    with ab(2) a show False by simp
  qed
  have j1: "1 \<le> j"
  proof (rule ccontr)
    assume "\<not> 1 \<le> j"
    then have "j = 0" by simp
    with bb(2) b show False by simp
  qed
  have ra: "(2::rat) ^ (i - 1) \<le> of_int a" "of_int a < (2::rat) ^ i"
  proof -
    have "nat (int i - 1) = i - 1" by simp
    with ab(1) have "(2::int) ^ (i - 1) \<le> a" by simp
    then have "(of_int ((2::int) ^ (i - 1)) :: rat) \<le> of_int a" by (simp only: of_int_le_iff)
    then show "(2::rat) ^ (i - 1) \<le> of_int a" by simp
    from ab(2) have "(of_int a :: rat) < of_int (2 ^ i)" by (simp only: of_int_less_iff)
    then show "of_int a < (2::rat) ^ i" by simp
  qed
  have rb: "(2::rat) ^ (j - 1) \<le> of_int b" "of_int b < (2::rat) ^ j"
  proof -
    have "nat (int j - 1) = j - 1" by simp
    with bb(1) have "(2::int) ^ (j - 1) \<le> b" by simp
    then have "(of_int ((2::int) ^ (j - 1)) :: rat) \<le> of_int b" by (simp only: of_int_le_iff)
    then show "(2::rat) ^ (j - 1) \<le> of_int b" by simp
    from bb(2) have "(of_int b :: rat) < of_int (2 ^ j)" by (simp only: of_int_less_iff)
    then show "of_int b < (2::rat) ^ j" by simp
  qed
  have bpos: "0 < (of_int b :: rat)" using b by simp
  have up: "\<bar>x\<bar> < 2 powi (int i - int j + 1)"
  proof -
    have "\<bar>x\<bar> < 2 ^ i / of_int b" unfolding x using ra(2) bpos by (simp add: divide_strict_right_mono)
    also have "\<dots> \<le> 2 ^ i / 2 ^ (j - 1)" using rb(1) bpos by (simp add: frac_le)
    also have "\<dots> = 2 powi (int i - int (j - 1))" by (simp add: power_int_diff)
    also have "int i - int (j - 1) = int i - int j + 1" using j1 by simp
    finally show ?thesis .
  qed
  have lo: "2 powi (int i - int j - 1) < \<bar>x\<bar>"
  proof -
    have e: "int i - int j - 1 = int (i - 1) - int j" using i1 by simp
    have "(2::rat) powi (int i - int j - 1) = 2 powi (int (i - 1) - int j)" by (simp only: e)
    also have "\<dots> = 2 ^ (i - 1) / 2 ^ j" by (simp add: power_int_diff)
    also have "\<dots> < 2 ^ (i - 1) / of_int b" using rb(2) bpos by (simp add: frac_less2)
    also have "\<dots> \<le> \<bar>x\<bar>" unfolding x using ra(1) bpos by (simp add: divide_right_mono)
    finally show ?thesis .
  qed
  show ?thesis
  proof (cases "2 powi (int i - int j) \<le> \<bar>x\<bar>")
    case True
    with q bi have "expo x = int i - int j" by (simp add: expo_def)
    with True up show ?thesis by simp
  next
    case False
    with q bi have "expo x = int i - int j - 1" by (simp add: expo_def)
    with False lo show ?thesis by simp
  qed
qed

text \<open>An integer below \<open>2^53\<close> is a double: rounding leaves it as it is.\<close>

lemma round_half_even_of_int: "round_half_even (of_int m) = m"
  by (simp add: round_half_even_def)

lemma fl_of_int:
  assumes "\<bar>n\<bar> < 2 ^ 53"
  shows "fl (of_int n) = of_int n"
proof (cases "n = 0")
  case True
  then show ?thesis by (simp add: fl_def)
next
  case False
  let ?x = "of_int n :: rat"
  have x0: "?x \<noteq> 0" using False by simp
  from expo_bounds[OF x0] have lo: "2 powi (expo ?x) \<le> \<bar>?x\<bar>"
    and hi: "\<bar>?x\<bar> < 2 powi (expo ?x + 1)" by auto
  have x1: "1 \<le> \<bar>?x\<bar>"
  proof -
    from False have "1 \<le> \<bar>n\<bar>" by simp
    then have "(of_int 1 :: rat) \<le> of_int \<bar>n\<bar>" by (simp only: of_int_le_iff)
    then show ?thesis by simp
  qed
  have e0: "0 \<le> expo ?x"
  proof (rule ccontr)
    assume "\<not> 0 \<le> expo ?x"
    then have "expo ?x + 1 \<le> 0" by simp
    then have "(2::rat) powi (expo ?x + 1) \<le> 2 powi 0" by (intro power_int_increasing) auto
    with hi x1 show False by simp
  qed
  have x53: "\<bar>?x\<bar> < 2 powi 53"
  proof -
    from assms have "(of_int \<bar>n\<bar> :: rat) < of_int (2 ^ 53)" by (simp only: of_int_less_iff)
    then show ?thesis by simp
  qed
  have e52: "expo ?x \<le> 52"
  proof (rule ccontr)
    assume "\<not> expo ?x \<le> 52"
    then have "53 \<le> expo ?x" by simp
    then have "(2::rat) powi 53 \<le> 2 powi (expo ?x)" by (intro power_int_increasing) auto
    with lo x53 show False by simp
  qed
  define k where "k = nat (52 - expo ?x)"
  have ek: "expo ?x - 52 = - int k" using e52 by (simp add: k_def)
  have mx: "max (expo ?x) (- 1022) = expo ?x" using e0 by simp
  have q: "(2::rat) powi (max (expo ?x) (- 1022) - 52) = 1 / 2 ^ k"
    unfolding mx ek by (simp add: power_int_minus field_simps)
  have d: "?x / (1 / 2 ^ k) = of_int (n * 2 ^ k)" by simp
  have "fl ?x = of_int (round_half_even (?x / (1 / 2 ^ k))) * (1 / 2 ^ k)"
    using x0 q by (simp add: fl_def Let_def)
  also have "\<dots> = of_int (n * 2 ^ k) * (1 / 2 ^ k)"
    unfolding d round_half_even_of_int ..
  also have "\<dots> = ?x" by simp
  finally show ?thesis .
qed

text \<open>The same rounding, with the integers answered at once; used to evaluate.\<close>

lemma fl_code [code]:
  "fl x =
     (let (a, b) = quotient_of x in
      if b = 1 \<and> \<bar>a\<bar> < 9007199254740992 then x
      else if x = 0 then 0
      else (let q = 2 powi (max (expo x) (- 1022) - 52)
            in of_int (round_half_even (x / q)) * q))"
proof -
  obtain a b where q: "quotient_of x = (a, b)" by (cases "quotient_of x")
  show ?thesis
  proof (cases "b = 1 \<and> \<bar>a\<bar> < 9007199254740992")
    case True
    with q have x: "x = of_int a" using quotient_of_div[OF q] by simp
    from True have "\<bar>a\<bar> < 2 ^ 53" by simp
    from fl_of_int[OF this] x q True show ?thesis by simp
  next
    case False
    with q show ?thesis by (auto simp: fl_def Let_def)
  qed
qed

lemma epsilon_value [code]: "epsilon = 7737125245533627 / 77371252455336267181195264"
  unfolding epsilon_def by code_simp

text \<open>
  Some values, as the doubles have them: from \<open>1048577.0\<close> on, \<open>m - 1e-10\<close> is \<open>m\<close>
  again; \<open>0.1 + 0.2\<close> is \<open>0.30000000000000004\<close>.
\<close>

lemma fl_examples:
  "fl (3 - epsilon) = 1688849860207641 / 562949953421312"
  "fl (1048576 - epsilon) = 9007199254740991 / 8589934592"
  "fl (1048577 - epsilon) = 1048577"
  "fl (2000000 - epsilon) = 2000000"
  "fl (fl (1 / 10) + fl (2 / 10)) = 1351079888211149 / 4503599627370496"
  by code_simp+

section \<open>Lists, lookups and the baseline step\<close>

lemma list_index_error: "list_index xs x = Inl e \<Longrightarrow> e = ValueError"
  by (induction xs arbitrary: e) (auto split: if_splits sum.splits)

lemma list_index_mem: "x \<in> set xs \<Longrightarrow> \<exists>i. list_index xs x = Inr i \<and> i < length xs \<and> xs ! i = x"
  by (induction xs) auto

lemma list_index_Inr: "list_index xs x = Inr i \<Longrightarrow> i < length xs \<and> xs ! i = x"
  by (induction xs arbitrary: i) (auto split: if_splits sum.splits)

lemma assign_from_cycle_error:
  "assign_from_cycle cn cc ch ns ex = Inl e \<Longrightarrow> e = ValueError \<or> e = IndexError"
proof (induction ns arbitrary: ex e)
  case Nil
  then show ?case by simp
next
  case (Cons n ns)
  then show ?case
    by (auto simp: getitem_def split: if_splits sum.splits list.splits dest: list_index_error)
qed

lemma find_cycle_start_assert:
  "find_cycle_start hs moncy = Inl AssertionError \<longleftrightarrow> moncy \<notin> fst ` set hs"
  by (induction hs) auto

lemma get_from_current_cycle_assert:
  "get_from_current_cycle hist moncy names chores = Inl AssertionError \<longleftrightarrow> moncy \<notin> fst ` set hist"
proof -
  have "find_cycle_start (rev hist) moncy = Inl AssertionError \<longleftrightarrow> moncy \<notin> fst ` set hist"
    using find_cycle_start_assert[of "rev hist" moncy] by simp
  then show ?thesis
    unfolding get_from_current_cycle_def
    by (auto simp: Let_def split: sum.splits prod.splits if_splits dest: assign_from_cycle_error)
qed

lemma rotate_right1_length [simp]: "length (rotate_right1 xs) = length xs"
  by (cases xs rule: rev_cases) (auto simp: rotate_right1_def)

lemma deque_rotate_length [simp]: "length (deque_rotate k xs) = length xs"
  by (induction k) (auto simp: deque_rotate_def)

lemma rotate_right1_nth:
  assumes "j < length xs"
  shows "rotate_right1 xs ! (Suc j mod length xs) = xs ! j"
proof (cases "Suc j < length xs")
  case True
  then show ?thesis using assms
    by (auto simp: rotate_right1_def nth_butlast)
next
  case False
  with assms have "Suc j = length xs" by simp
  then have "j = length xs - 1" "xs \<noteq> []" by auto
  then show ?thesis
    by (simp add: rotate_right1_def last_conv_nth)
qed

lemma deque_rotate_nth:
  "i < length xs \<Longrightarrow> deque_rotate k xs ! ((i + k) mod length xs) = xs ! i"
proof (induction k)
  case 0
  then show ?case by (simp add: deque_rotate_def)
next
  case (Suc k)
  let ?ys = "deque_rotate k xs"
  have "0 < length xs" using Suc.prems by (cases xs) auto
  then have j: "(i + k) mod length xs < length ?ys" by simp
  have "deque_rotate (Suc k) xs = rotate_right1 ?ys" by (simp add: deque_rotate_def)
  moreover have "rotate_right1 ?ys ! (Suc ((i + k) mod length xs) mod length ?ys) = ?ys ! ((i + k) mod length xs)"
    using rotate_right1_nth[OF j] .
  moreover have "Suc ((i + k) mod length xs) mod length ?ys = (i + Suc k) mod length xs"
    by (simp add: mod_Suc_eq)
  ultimately show ?case using Suc by simp
qed

text \<open>
  Claim C9. \<open>get_from_current_cycle\<close> raises the assertion error exactly when no row of
  the history has the date of the cycle's Monday. Whenever it raises, in a week that does not
  start a cycle and with at least one chore, \<open>main\<close> takes the new-cycle scheme: the chores
  rotated by \<open>fourweekno mod len(chores)\<close> and a full improvement. The rotation keeps the
  length and moves the chore at position \<open>i\<close> to position \<open>(i + k) mod len(chores)\<close>.
\<close>

theorem baseline_not_found_fallback:
  "(get_from_current_cycle hist moncy names chores = Inl AssertionError
      \<longleftrightarrow> moncy \<notin> fst ` set hist)
   \<and> (weekno mod 4 \<noteq> 0 \<and> chores \<noteq> [] \<and> get_from_current_cycle hist moncy names chores = Inl e
      \<longrightarrow> main_baseline weekno fourweekno hist moncy names chores
            = Inr (deque_rotate (nat (fourweekno mod int (length chores))) chores, True))
   \<and> length (deque_rotate k chores) = length chores
   \<and> (i < length chores \<longrightarrow> deque_rotate k chores ! ((i + k) mod length chores) = chores ! i)"
  using get_from_current_cycle_assert[of hist moncy names chores] deque_rotate_nth[of i chores k]
  by (auto simp: main_baseline_def new_cycle_def)

theorem baseline_not_found_fallback_witness:
  "get_from_current_cycle [(7, [(''A'', ''X'')])] 35 [''A'', ''B''] [''X'', ''Y''] = Inl AssertionError
   \<and> main_baseline 5 1 [(7, [(''A'', ''X'')])] 35 [''A'', ''B''] [''X'', ''Y'']
       = Inr ([''Y'', ''X''], True)
   \<and> deque_rotate 1 [''X'', ''Y''] ! ((0 + 1) mod 2) = ''X''"
proof -
  have a: "get_from_current_cycle [(7, [(''A'', ''X'')])] 35 [''A'', ''B''] [''X'', ''Y''] = Inl AssertionError"
    by code_simp
  have b: "deque_rotate (nat (1 mod int (length [''X'', ''Y'']))) [''X'', ''Y''] = [''Y'', ''X'']"
    by code_simp
  show ?thesis
    using baseline_not_found_fallback[of "[(7, [(''A'', ''X'')])]" 35 "[''A'', ''B'']" "[''X'', ''Y'']"
            5 AssertionError 1 1 0] a b
    by simp
qed

section \<open>The 3-cycle scenario\<close>

lemma ex_improve:
  "improve ex_names ex_chores ex_prefs None True = Some (Inr [''IB'', ''IC'', ''IA''])"
  by code_simp

text \<open>
  Claim C2. On the three-person instance (total cost 9), \<open>seek_loop\<close> from \<open>A\<close> returns
  the loop \<open>[A, B, C]\<close> with improvement 6; executing that trade, and \<open>improve\<close> as a
  whole, give \<open>A:IB, B:IC, C:IA\<close>, where everybody pays 1 and the total is 3; and
  \<open>improve\<close> on that result returns it unchanged.
\<close>
theorem three_cycle_scenario:
  "total_misery ex_names ex_chores ex_prefs = Inr 9
   \<and> seek_loop ex_names ex_chores ex_prefs ''A'' [] 0 True = Inr (Some [''A'', ''B'', ''C''], 6)
   \<and> execute_trade ex_names ex_chores ''A'' [''A'', ''B'', ''C''] = Inr [''IB'', ''IC'', ''IA'']
   \<and> improve ex_names ex_chores ex_prefs None True = Some (Inr [''IB'', ''IC'', ''IA''])
   \<and> chore_cost ex_names [''IB'', ''IC'', ''IA''] ex_prefs ''A'' ''A'' = Inr 1
   \<and> chore_cost ex_names [''IB'', ''IC'', ''IA''] ex_prefs ''B'' ''B'' = Inr 1
   \<and> chore_cost ex_names [''IB'', ''IC'', ''IA''] ex_prefs ''C'' ''C'' = Inr 1
   \<and> total_misery ex_names [''IB'', ''IC'', ''IA''] ex_prefs = Inr 3
   \<and> improve ex_names [''IB'', ''IC'', ''IA''] ex_prefs None True = Some (Inr [''IB'', ''IC'', ''IA''])"
proof (intro conjI)
  show "total_misery ex_names ex_chores ex_prefs = Inr 9" by code_simp
  show "seek_loop ex_names ex_chores ex_prefs ''A'' [] 0 True = Inr (Some [''A'', ''B'', ''C''], 6)"
    by code_simp
  show "execute_trade ex_names ex_chores ''A'' [''A'', ''B'', ''C''] = Inr [''IB'', ''IC'', ''IA'']"
    by code_simp
  show "improve ex_names ex_chores ex_prefs None True = Some (Inr [''IB'', ''IC'', ''IA''])"
    by (rule ex_improve)
  show "chore_cost ex_names [''IB'', ''IC'', ''IA''] ex_prefs ''A'' ''A'' = Inr 1" by code_simp
  show "chore_cost ex_names [''IB'', ''IC'', ''IA''] ex_prefs ''B'' ''B'' = Inr 1" by code_simp
  show "chore_cost ex_names [''IB'', ''IC'', ''IA''] ex_prefs ''C'' ''C'' = Inr 1" by code_simp
  show "total_misery ex_names [''IB'', ''IC'', ''IA''] ex_prefs = Inr 3" by code_simp
  show "improve ex_names [''IB'', ''IC'', ''IA''] ex_prefs None True = Some (Inr [''IB'', ''IC'', ''IA''])"
    by code_simp
qed

section \<open>An empty list of restricted askers\<close>

lemma mapE_snd:
  "mapE f xs = Inr ys \<Longrightarrow> (\<And>x y. f x = Inr y \<Longrightarrow> snd y = x) \<Longrightarrow> map snd ys = xs"
  by (induction xs arbitrary: ys) (auto split: sum.splits)

lemma asking_order_mset:
  assumes "asking_order names chores prefs (Some r) = Inr order" "r \<noteq> []"
  shows "mset order = mset r"
proof -
  from assms obtain kns where
    m: "mapE (\<lambda>n. case chore_cost names chores prefs n n of Inl e \<Rightarrow> Inl e
                   | Inr x \<Rightarrow> Inr (- x, n)) r = Inr kns"
    and o: "order = map snd (sort_key fst kns)"
    by (auto simp: asking_order_def split: sum.splits)
  have "map snd kns = r"
    by (rule mapE_snd[OF m]) (auto split: sum.splits)
  moreover have "mset (map snd (sort_key fst kns)) = mset (map snd kns)"
    by simp
  ultimately show ?thesis using o by simp
qed

text \<open>
  Claim C10. With \<open>restricted_askers\<close> the empty list, the asking order and the result of
  \<open>improve\<close> are those of all names (the same as with no restriction at all); a
  non-empty list of askers is asked as given, each asker as often as it is listed.
\<close>

theorem empty_restricted_askers_is_everyone:
  "asking_order names chores prefs (Some []) = asking_order names chores prefs (Some names)
   \<and> improve names chores prefs (Some []) largeloop = improve names chores prefs (Some names) largeloop
   \<and> improve names chores prefs (Some []) largeloop = improve names chores prefs None largeloop
   \<and> (r \<noteq> [] \<and> asking_order names chores prefs (Some r) = Inr order \<longrightarrow> mset order = mset r)"
  using asking_order_mset[of names chores prefs r order]
  by (auto simp: improve_def improve_run_def asking_order_def)

theorem empty_restricted_askers_is_everyone_witness:
  "improve ex_names ex_chores ex_prefs (Some []) False = improve ex_names ex_chores ex_prefs None False
   \<and> asking_order ex_names ex_chores ex_prefs (Some [''B'']) = Inr [''B'']
   \<and> mset [''B''] = mset [''B'']
   \<and> improve ex_names ex_chores ex_prefs (Some []) False = Some (Inr [''IB'', ''IC'', ''IA''])"
proof -
  have a: "asking_order ex_names ex_chores ex_prefs (Some [''B'']) = Inr [''B'']" by code_simp
  have b: "improve ex_names ex_chores ex_prefs (Some []) False = Some (Inr [''IB'', ''IC'', ''IA''])"
    by code_simp
  note t = empty_restricted_askers_is_everyone[of ex_names ex_chores ex_prefs False "[''B'']" "[''B'']"]
  from t have c: "improve ex_names ex_chores ex_prefs (Some []) False
                  = improve ex_names ex_chores ex_prefs None False"
    by blast
  from t a have d: "mset [''B''] = mset [''B'']" by blast
  from a b c d show ?thesis by blast
qed

section \<open>As many people as chores\<close>

text \<open>
  Claim C8 (the code differs). When the people in town are as many as the chores,
  \<open>get_current_situation\<close> prints the local \<open>chores\<close> before it is assigned: whatever
  the answers, once the out-of-town answer is accepted the call raises UnboundLocalError
  and returns nothing.
\<close>
theorem equal_counts_raises:
  "ask_out_of_town all_names answers = Inr (oot, rest)
   \<Longrightarrow> length (filter (\<lambda>name. name \<notin> set oot) all_names) = length all_chores
   \<Longrightarrow> get_current_situation all_names all_chores answers = Inl UnboundLocalError"
  by (simp add: get_current_situation_def read_local_def)

theorem equal_counts_raises_witness:
  "ask_out_of_town [''A'', ''B''] [[]] = Inr ([], [])
   \<and> length (filter (\<lambda>name. name \<notin> set []) [''A'', ''B'']) = length [''X'', ''Y'']
   \<and> get_current_situation [''A'', ''B''] [''X'', ''Y''] [[]] = Inl UnboundLocalError"
proof -
  have a: "ask_out_of_town [''A'', ''B''] [[]] = Inr ([], [])" by simp
  have b: "length (filter (\<lambda>name. name \<notin> set []) [''A'', ''B'']) = length [''X'', ''Y'']" by simp
  from equal_counts_raises[OF a b] a b show ?thesis by simp
qed

section \<open>A week with nobody from the cycle start\<close>

text \<open>
  Claim C6 (the code differs). The cycle start has the row \<open>A:X\<close>; this week only
  \<open>B\<close> is in town and \<open>X\<close> is the chore. Nobody of the cycle start is kept, the
  unpacking of the empty selection raises ValueError, and no chore list is returned.
\<close>
theorem no_returning_person_raises:
  "get_from_current_cycle [(7, [(''A'', ''X'')])] 7 [''B''] [''X''] = Inl ValueError"
  by code_simp

section \<open>add_to_history\<close>

text \<open>
  Claim C7 (the code differs). The history has a row for the date 1, but not as its last
  row. \<open>add_to_history\<close> for the date 1 tests the last row only: the row of date 1 is not
  overwritten, a second row for the date is appended, and the date is then recorded twice.
\<close>

theorem add_to_history_appends_second_row:
  "add_to_history [(1, [(''A'', ''X'')]), (2, [(''A'', ''Y'')])] 1 [''A''] [''Z'']
     = [(1, [(''A'', ''X'')]), (2, [(''A'', ''Y'')]), (1, [(''A'', ''Z'')])]
   \<and> \<not> distinct (map fst (add_to_history [(1, [(''A'', ''X'')]), (2, [(''A'', ''Y'')])] 1 [''A''] [''Z'']))"
  by (simp add: add_to_history_def dict_of_def)

section \<open>The last pass of improve\<close>

lemma ask_all_quiet:
  "\<forall>n \<in> set ns. no_loop_found names c prefs ll n \<Longrightarrow> ask_all names prefs ll ns (c, h, m) = Inr (c, h, m)"
  by (induction ns) (auto simp: no_loop_found_def split: sum.splits option.splits)

lemma ask_all_made_mono:
  "ask_all names prefs ll ns (c, h, True) = Inr st \<Longrightarrow> snd (snd st)"
  by (induction ns arbitrary: c h) (auto split: sum.splits option.splits if_splits)

lemma ask_all_no_trade:
  "ask_all names prefs ll ns (c, h, m) = Inr (c', h', False)
   \<Longrightarrow> c' = c \<and> h' = h \<and> \<not> m \<and> (\<forall>n \<in> set ns. no_loop_found names c prefs ll n)"
proof (induction ns)
  case Nil
  then show ?case by simp
next
  case (Cons n ns)
  then show ?case
    by (auto simp: no_loop_found_def split: sum.splits option.splits if_splits
             dest: ask_all_made_mono)
qed

lemma ask_all_misery:
  "ask_all names prefs ll ns (c, h, m) = Inr (c', h', m')
   \<Longrightarrow> h \<noteq> [] \<and> misery names c prefs = Inr (last h)
   \<Longrightarrow> h' \<noteq> [] \<and> misery names c' prefs = Inr (last h')"
proof (induction ns arbitrary: c h m)
  case Nil
  then show ?case by simp
next
  case (Cons n ns)
  then show ?case
    by (auto split: sum.splits option.splits if_splits)
qed

lemma improve_while_final_aux:
  assumes "improve_while names prefs ll order c h = Some r"
  shows "\<forall>y hm. r = Inr (y, hm) \<longrightarrow> h \<noteq> [] \<and> misery names c prefs = Inr (last h)
       \<longrightarrow> (\<forall>n \<in> set order. no_loop_found names y prefs ll n)
           \<and> hm \<noteq> [] \<and> misery names y prefs = Inr (last hm)"
proof (rule improve_while.raw_induct[where P = "\<lambda>names prefs ll order c h r.
    \<forall>y hm. r = Inr (y, hm) \<longrightarrow> h \<noteq> [] \<and> misery names c prefs = Inr (last h)
       \<longrightarrow> (\<forall>n \<in> set order. no_loop_found names y prefs ll n)
           \<and> hm \<noteq> [] \<and> misery names y prefs = Inr (last hm)", OF _ assms], goal_cases)
  case (1 iw names prefs ll order c h r)
  show ?case
  proof (intro allI impI)
    fix y hm
    assume r: "r = Inr (y, hm)" and inv: "h \<noteq> [] \<and> misery names c prefs = Inr (last h)"
    from 1(2) r obtain st where
      st: "ask_all names prefs ll order (c, h, False) = Inr st"
      by (auto split: sum.splits)
    obtain c' h' m' where st3: "st = (c', h', m')" by (cases st)
    from ask_all_misery[OF st[unfolded st3] inv]
    have inv': "h' \<noteq> [] \<and> misery names c' prefs = Inr (last h')" .
    show "(\<forall>n \<in> set order. no_loop_found names y prefs ll n)
           \<and> hm \<noteq> [] \<and> misery names y prefs = Inr (last hm)"
    proof (cases m')
      case False
      with 1(2) r st st3 have e: "y = c'" "hm = h'" by auto
      from ask_all_no_trade[of names prefs ll order c h False c' h'] st st3 False
      have "c' = c" "\<forall>n \<in> set order. no_loop_found names c prefs ll n" by auto
      with e inv' show ?thesis by simp
    next
      case True
      with 1(2) st st3 have "iw names prefs ll order c' h' = Some r" by simp
      from 1(1)[OF this] r inv' show ?thesis by blast
    qed
  qed
qed

lemma improve_while_final:
  "improve_while names prefs ll order c h = Some (Inr (y, hm))
   \<Longrightarrow> h \<noteq> [] \<Longrightarrow> misery names c prefs = Inr (last h)
   \<Longrightarrow> (\<forall>n \<in> set order. no_loop_found names y prefs ll n)
       \<and> hm \<noteq> [] \<and> misery names y prefs = Inr (last hm)"
  using improve_while_final_aux by blast

lemma mapE_total:
  "(\<And>x. x \<in> set xs \<Longrightarrow> \<exists>y. f x = Inr y) \<Longrightarrow> \<exists>ys. mapE f xs = Inr ys"
proof (induction xs)
  case Nil
  then show ?case by simp
next
  case (Cons x xs)
  then obtain y where "f x = Inr y" by auto
  moreover from Cons obtain ys where "mapE f xs = Inr ys" by auto
  ultimately show ?case by simp
qed

lemma asking_order_set:
  assumes "asking_order names chores prefs ra = Inr order"
  shows "set order = set (askers_of names ra)"
proof -
  from assms obtain kns where
    m: "mapE (\<lambda>n. case chore_cost names chores prefs n n of Inl e \<Rightarrow> Inl e
                   | Inr x \<Rightarrow> Inr (- x, n)) (askers_of names ra) = Inr kns"
    and o: "order = map snd (sort_key fst kns)"
    by (auto simp: asking_order_def askers_of_def Let_def split: sum.splits)
  have "map snd kns = askers_of names ra"
    by (rule mapE_snd[OF m]) (auto split: sum.splits)
  then have "set (askers_of names ra) = snd ` set kns" by (metis set_map)
  with o show ?thesis by simp
qed

lemma no_loop_found_cost:
  assumes "no_loop_found names y prefs ll n"
  shows "\<exists>x. chore_cost names y prefs n n = Inr x"
proof -
  from assms obtain found where "seek_loop names y prefs n [] 0 ll = Inr found"
    by (auto simp: no_loop_found_def split: sum.splits)
  then show ?thesis
    by (subst (asm) seek_loop.simps)
       (auto simp: chore_cost_def held_cost_def split: sum.splits)
qed

lemma asking_order_total:
  assumes "\<forall>n \<in> set (askers_of names ra). \<exists>x. chore_cost names y prefs n n = Inr x"
  shows "\<exists>order. asking_order names y prefs ra = Inr order"
proof -
  have "\<exists>kns. mapE (\<lambda>n. case chore_cost names y prefs n n of Inl e \<Rightarrow> Inl e
                   | Inr x \<Rightarrow> Inr (- x, n)) (askers_of names ra) = Inr kns"
    by (rule mapE_total) (use assms in \<open>auto split: sum.splits\<close>)
  then show ?thesis
    by (auto simp: asking_order_def askers_of_def Let_def split: sum.splits)
qed

text \<open>
  Claim C5. Whenever \<open>improve\<close> returns a chores list, \<open>improve\<close> on that list (same
  names, preferences, askers and mode) returns it unchanged.
\<close>

theorem improve_idempotent:
  assumes "improve names x prefs ra ll = Some (Inr y)"
  shows "improve names y prefs ra ll = Some (Inr y)"
proof -
  from assms obtain z where z: "improve_run names x prefs ra ll = Some z" "map_sum id fst z = Inr y"
    by (auto simp: improve_def)
  then obtain hm where run: "improve_run names x prefs ra ll = Some (Inr (y, hm))"
    by (cases z) auto
  then obtain order m where
    o: "asking_order names x prefs ra = Inr order"
    and m: "misery names x prefs = Inr m"
    and w: "improve_while names prefs ll order x [m] = Some (Inr (y, hm))"
    by (auto simp: improve_run_def split: sum.splits)
  from improve_while_final[OF w] m
  have q: "\<forall>n \<in> set order. no_loop_found names y prefs ll n"
    and my: "misery names y prefs = Inr (last hm)" by auto
  from asking_order_set[OF o] q
  have qa: "\<forall>n \<in> set (askers_of names ra). no_loop_found names y prefs ll n" by simp
  then have "\<forall>n \<in> set (askers_of names ra). \<exists>c. chore_cost names y prefs n n = Inr c"
    using no_loop_found_cost by blast
  from asking_order_total[OF this] obtain order' where
    o': "asking_order names y prefs ra = Inr order'" by blast
  from asking_order_set[OF o'] qa
  have "\<forall>n \<in> set order'. no_loop_found names y prefs ll n" by simp
  from ask_all_quiet[OF this]
  have "ask_all names prefs ll order' (y, [last hm], False) = Inr (y, [last hm], False)" .
  then have "improve_while names prefs ll order' y [last hm] = Some (Inr (y, [last hm]))"
    by (subst improve_while.simps) simp
  with o' my show ?thesis
    by (simp add: improve_def improve_run_def)
qed

theorem improve_idempotent_witness:
  "improve ex_names ex_chores ex_prefs None True = Some (Inr [''IB'', ''IC'', ''IA''])
   \<and> improve ex_names [''IB'', ''IC'', ''IA''] ex_prefs None True = Some (Inr [''IB'', ''IC'', ''IA''])"
proof -
  have a: "improve ex_names ex_chores ex_prefs None True = Some (Inr [''IB'', ''IC'', ''IA''])"
    by (rule ex_improve)
  from improve_idempotent[OF a] a show ?thesis by blast
qed

section \<open>Loops that do not improve\<close>
























end
